theory Spec2Isabelle
  imports Main
begin

section \<open>Strings\<close>

text \<open>
  A Python \<open>str\<close> is a sequence of code points. It is modelled as a \<^typ>\<open>string\<close>, a list
  of 8-bit characters, each character read as the code point of the same number
  (U+0000 .. U+00FF). The section sign is U+00A7, one character.
\<close>

definition section_sign :: char where
  "section_sign = CHR 0xA7"

definition newline :: char where
  "newline = CHR 0x0A"

text \<open>\<open>str.lower\<close> on the code points below 256: \<open>A-Z\<close> and U+00C0 .. U+00DE without the
  multiplication sign U+00D7 move up by 32, every other character stays.\<close>

definition lower_char :: "char \<Rightarrow> char" where
  "lower_char c =
     (let n = (of_char c :: nat)
      in if (65 \<le> n \<and> n \<le> 90) \<or> (192 \<le> n \<and> n \<le> 222 \<and> n \<noteq> 215)
         then char_of (n + 32) else c)"

definition lower :: "string \<Rightarrow> string" where
  "lower s = map lower_char s"

text \<open>\<open>needle in hay\<close> on strings: the needle occurs at some position of the hay, the
  positions tried from the left.\<close>

fun starts_with :: "string \<Rightarrow> string \<Rightarrow> bool" where
  "starts_with [] s = True"
| "starts_with (p # ps) [] = False"
| "starts_with (p # ps) (c # cs) = (p = c \<and> starts_with ps cs)"

fun contains :: "string \<Rightarrow> string \<Rightarrow> bool" where
  "contains needle [] = starts_with needle []"
| "contains needle (c # cs) = (starts_with needle (c # cs) \<or> contains needle cs)"

section \<open>Lore parsing\<close>

record attribute =
  name :: string
  level :: string

definition valid_armor_attributes :: "string list" where
  "valid_armor_attributes =
     [''Arachno Resistance'', ''Blazing Resistance'', ''Breeze'', ''Dominance'',
      ''Ender Resistance'', ''Experience'', ''Fortitude'', ''Life Regeneration'',
      ''Lifeline'', ''Magic Find'', ''Mana Pool'', ''Mana Regeneration'',
      ''Vitality'', ''Speed'', ''Undead Resistance'', ''Veteran'']"

text \<open>The character class \<open>[0-9a-fk-or]\<close> of the decoration codes.\<close>

definition code_char :: "char \<Rightarrow> bool" where
  "code_char c =
     (let n = (of_char c :: nat)
      in (48 \<le> n \<and> n \<le> 57) \<or> (97 \<le> n \<and> n \<le> 102) \<or> (107 \<le> n \<and> n \<le> 111) \<or> n = 114)"

text \<open>The character class \<open>[IVXLCDM]\<close> of the level.\<close>

definition roman_char :: "char \<Rightarrow> bool" where
  "roman_char c = (c \<in> set ''IVXLCDM'')"

text \<open>\<open>re.sub(r'\<section>[0-9a-fk-or]', '', item_lore)\<close>: one pass from the left, every
  non-overlapping occurrence of the two-character pattern removed.\<close>

fun strip_codes :: "string \<Rightarrow> string" where
  "strip_codes (c # d # rest) =
     (if c = section_sign \<and> code_char d then strip_codes rest
      else c # strip_codes (d # rest))"
| "strip_codes s = s"

text \<open>\<open>str.split('\n')\<close>: never empty, one more piece than there are newlines.\<close>

fun split_lines :: "string \<Rightarrow> string list" where
  "split_lines [] = [[]]"
| "split_lines (c # cs) =
     (if c = newline then [] # split_lines cs
      else (case split_lines cs of
              [] \<Rightarrow> [[c]]
            | l # ls \<Rightarrow> (c # l) # ls))"

text \<open>
  The pattern \<open>(A1|...|A16) ([IVXLCDM]+)\<close> anchored at the start of \<open>s\<close>: the alternatives
  are tried in order; one succeeds when the name is followed by a space and at least one
  level character, and the greedy \<open>+\<close> takes the longest run. A failed alternative
  falls through to the next.
\<close>

fun match_here :: "string list \<Rightarrow> string \<Rightarrow> attribute option" where
  "match_here [] s = None"
| "match_here (a # as) s =
     (if starts_with a s then
        (case drop (length a) s of
           [] \<Rightarrow> match_here as s
         | sp # t \<Rightarrow>
             if sp = CHR '' '' \<and> takeWhile roman_char t \<noteq> []
             then Some \<lparr>name = a, level = takeWhile roman_char t\<rparr>
             else match_here as s)
      else match_here as s)"

text \<open>\<open>attribute_regex.search(line)\<close>: the leftmost position with a match.\<close>

fun attribute_search :: "string \<Rightarrow> attribute option" where
  "attribute_search [] = match_here valid_armor_attributes []"
| "attribute_search (c # cs) =
     (case match_here valid_armor_attributes (c # cs) of
        Some m \<Rightarrow> Some m
      | None \<Rightarrow> attribute_search cs)"

text \<open>\<open>shard_regex.search(line)\<close>: the pattern is a literal.\<close>

definition shard_search :: "string \<Rightarrow> bool" where
  "shard_search line = contains ''Attribute Shard'' line"

definition shard_entry :: attribute where
  "shard_entry = \<lparr>name = ''Attribute Shard'', level = ''N/A''\<rparr>"

text \<open>The body of the loop over the lines, appending to \<open>attributes\<close>.\<close>

definition line_step :: "attribute list \<Rightarrow> string \<Rightarrow> attribute list" where
  "line_step attributes line =
     (let attributes1 = (case attribute_search line of
                           Some m \<Rightarrow> attributes @ [m]
                         | None \<Rightarrow> attributes)
      in if shard_search line then attributes1 @ [shard_entry] else attributes1)"

fun lines_loop :: "attribute list \<Rightarrow> string list \<Rightarrow> attribute list" where
  "lines_loop attributes [] = attributes"
| "lines_loop attributes (line # rest) = lines_loop (line_step attributes line) rest"

definition extract_attributes_from_lore :: "string \<Rightarrow> attribute list" where
  "extract_attributes_from_lore item_lore =
     lines_loop [] (split_lines (strip_codes item_lore))"

section \<open>Listings and the upstream API\<close>

text \<open>\<open>AuctionItem\<close>. The display name may be \<open>None\<close> (a JSON \<open>null\<close>).\<close>

record auction_item =
  uuid :: string
  item_name :: "string option"
  item_lore :: string
  category :: string
  tier :: string
  claimed :: bool
  bin_status :: bool
  starting_bid :: int

text \<open>One entry of the \<open>auctions\<close> array as it arrives: a JSON object, each key present
  (\<open>Some\<close>) or missing (\<open>None\<close>).\<close>

record raw_entry =
  j_uuid :: "string option"
  j_item_name :: "string option option"
  j_item_lore :: "string option"
  j_category :: "string option"
  j_tier :: "string option"
  j_claimed :: "bool option"
  j_bin :: "bool option"
  j_starting_bid :: "int option"

record page_body =
  totalPages :: "int option"
  auctions :: "raw_entry list option"

text \<open>What one page request gives: a \<open>RequestException\<close> (network error, timeout, status
  that is not 2xx, a body that is not JSON) or the decoded body.\<close>

datatype response = RequestException | Body page_body

text \<open>The upstream seen from one call of \<open>get_auction_items\<close>: the answer to its \<open>k\<close>-th
  request (counted from 0), which asks for page \<open>p\<close>.\<close>

type_synonym upstream = "nat \<Rightarrow> nat \<Rightarrow> response"

datatype error = KeyError string

text \<open>The constructor call of lines 43-52: the keyword arguments are evaluated in the
  order written, \<open>item[key]\<close> raises on a missing key, \<open>item.get('item_lore', '')\<close>
  does not.\<close>

definition required :: "string \<Rightarrow> 'a option \<Rightarrow> error + 'a" where
  "required key v = (case v of None \<Rightarrow> Inl (KeyError key) | Some x \<Rightarrow> Inr x)"

definition make_item :: "raw_entry \<Rightarrow> error + auction_item" where
  "make_item item =
     (case required ''uuid'' (j_uuid item) of Inl e \<Rightarrow> Inl e | Inr u \<Rightarrow>
      case required ''item_name'' (j_item_name item) of Inl e \<Rightarrow> Inl e | Inr n \<Rightarrow>
      case required ''category'' (j_category item) of Inl e \<Rightarrow> Inl e | Inr c \<Rightarrow>
      case required ''tier'' (j_tier item) of Inl e \<Rightarrow> Inl e | Inr t \<Rightarrow>
      case required ''claimed'' (j_claimed item) of Inl e \<Rightarrow> Inl e | Inr cl \<Rightarrow>
      case required ''bin'' (j_bin item) of Inl e \<Rightarrow> Inl e | Inr b \<Rightarrow>
      case required ''starting_bid'' (j_starting_bid item) of Inl e \<Rightarrow> Inl e | Inr sb \<Rightarrow>
        Inr \<lparr>uuid = u, item_name = n,
             item_lore = (case j_item_lore item of None \<Rightarrow> [] | Some l \<Rightarrow> l),
             category = c, tier = t, claimed = cl, bin_status = b, starting_bid = sb\<rparr>)"

text \<open>The loop of lines 42-52 over the entries of one page.\<close>

fun append_entries :: "auction_item list \<Rightarrow> raw_entry list \<Rightarrow> error + auction_item list" where
  "append_entries auction_items [] = Inr auction_items"
| "append_entries auction_items (item # rest) =
     (case make_item item of
        Inl e \<Rightarrow> Inl e
      | Inr a \<Rightarrow> append_entries (auction_items @ [a]) rest)"

section \<open>Fetcher\<close>

text \<open>The local variables of \<open>get_auction_items\<close>, and the number of requests made so far.\<close>

record fetch_state =
  auction_items :: "auction_item list"
  page :: nat
  more_pages :: bool
  retry_attempts :: int
  requests :: nat

datatype step = Continue fetch_state | Break fetch_state | Raise error

text \<open>One run of the body of \<open>while more_pages\<close> (lines 32-62). A \<open>RequestException\<close> is
  raised before any variable is assigned, so the handler sees the state of the loop entry.\<close>

definition loop_body :: "upstream \<Rightarrow> fetch_state \<Rightarrow> step" where
  "loop_body up st =
     (case up (requests st) (page st) of
        Body data \<Rightarrow>
          (case required ''totalPages'' (totalPages data) of
             Inl e \<Rightarrow> Raise e
           | Inr total_pages \<Rightarrow>
               (case required ''auctions'' (auctions data) of
                  Inl e \<Rightarrow> Raise e
                | Inr entries \<Rightarrow>
                    (case append_entries (auction_items st) entries of
                       Inl e \<Rightarrow> Raise e
                     | Inr items \<Rightarrow>
                         Continue \<lparr>auction_items = items,
                                   page = page st + 1,
                                   more_pages = (int (page st) + 1 < total_pages),
                                   retry_attempts = retry_attempts st,
                                   requests = requests st + 1\<rparr>)))
      | RequestException \<Rightarrow>
          (let st' = st\<lparr>retry_attempts := retry_attempts st - 1, requests := requests st + 1\<rparr>
           in if retry_attempts st' > 0 then Continue st' else Break st'))"

text \<open>The \<open>while\<close> loop and the \<open>return\<close> after it. The loop need not end (an upstream
  may report ever more pages): \<open>None\<close> is a run that never returns, \<open>Some (Inl e)\<close> one
  that raises.\<close>

partial_function (option) while_more_pages ::
  "upstream \<Rightarrow> fetch_state \<Rightarrow> (error + auction_item list) option" where
  "while_more_pages up st =
     (if more_pages st then
        (case loop_body up st of
           Continue st' \<Rightarrow> while_more_pages up st'
         | Break st' \<Rightarrow> Some (Inr (auction_items st'))
         | Raise e \<Rightarrow> Some (Inl e))
      else Some (Inr (auction_items st)))"

declare while_more_pages.simps [code]

definition initial_state :: fetch_state where
  "initial_state =
     \<lparr>auction_items = [], page = 0, more_pages = True, retry_attempts = 5, requests = 0\<rparr>"

definition get_auction_items :: "upstream \<Rightarrow> (error + auction_item list) option" where
  "get_auction_items up = while_more_pages up initial_state"

text \<open>The state after \<open>n\<close> further runs of the loop body, when the loop makes that many.\<close>

fun after_iterations :: "upstream \<Rightarrow> nat \<Rightarrow> fetch_state \<Rightarrow> fetch_state option" where
  "after_iterations up 0 st = Some st"
| "after_iterations up (Suc n) st =
     (if more_pages st then
        (case loop_body up st of
           Continue st' \<Rightarrow> after_iterations up n st'
         | Break st' \<Rightarrow> None
         | Raise e \<Rightarrow> None)
      else None)"

section \<open>Cache and filter\<close>

definition valid_armor_names :: "string list" where
  "valid_armor_names = [''Crimson'', ''Aurora'', ''Terror'', ''Hollow'', ''Fervor'']"

definition valid_armor_pieces :: "string list" where
  "valid_armor_pieces = [''Helmet'', ''Chestplate'', ''Leggings'', ''Boots'']"

definition valid_equipments :: "string list" where
  "valid_equipments = [''Molten Belt'', ''Molten Bracelet'', ''Molten Cloak'', ''Molten Necklace'']"

definition matches_armor_name :: "string \<Rightarrow> bool" where
  "matches_armor_name n = list_ex (\<lambda>nm. contains (lower nm) (lower n)) valid_armor_names"

definition matches_armor_piece :: "string \<Rightarrow> bool" where
  "matches_armor_piece n = list_ex (\<lambda>piece. contains (lower piece) (lower n)) valid_armor_pieces"

definition matches_equipment_name :: "string \<Rightarrow> bool" where
  "matches_equipment_name n =
     list_ex (\<lambda>equipment. contains (lower equipment) (lower n)) valid_equipments"

text \<open>A \<open>datetime\<close> is a number of microseconds counted from 1970-01-01T00:00:00 on the
  naive time line that \<open>datetime.now()\<close> reads, a \<open>timedelta\<close> a number of microseconds.
  \<open>datetime.min\<close> is 0001-01-01T00:00:00, which is 719162 days earlier.\<close>

definition datetime_min :: int where
  "datetime_min = - (719162 * 86400 * 1000000)"

definition timedelta_minutes :: "int \<Rightarrow> int" where
  "timedelta_minutes m = m * 60000000"

record service =
  last_fetched :: int
  cached_items :: "auction_item list"

text \<open>\<open>ArmorFilterService.__init__\<close>.\<close>

definition init_service :: service where
  "init_service = \<lparr>last_fetched = datetime_min, cached_items = []\<rparr>"

text \<open>\<open>refresh_data\<close>; \<open>now\<close> is what \<open>datetime.now()\<close> reads on line 89. When the fetch
  raises, neither field is assigned.\<close>

definition refresh_data :: "service \<Rightarrow> upstream \<Rightarrow> int \<Rightarrow> (service \<times> (error + unit)) option" where
  "refresh_data s up now =
     (case get_auction_items up of
        None \<Rightarrow> None
      | Some (Inl e) \<Rightarrow> Some (s, Inl e)
      | Some (Inr items) \<Rightarrow> Some (\<lparr>last_fetched = now, cached_items = items\<rparr>, Inr ()))"

text \<open>The test of line 92.\<close>

definition is_stale :: "service \<Rightarrow> int \<Rightarrow> bool" where
  "is_stale s now = (now - last_fetched s > timedelta_minutes 5)"

text \<open>The three comprehensions of lines 96-107. The \<open>and\<close> chain is evaluated from the
  left: \<open>item.item_name\<close> is false for \<open>None\<close> and for the empty string, so the name is a
  non-empty string wherever a predicate reads it.\<close>

definition armors :: "auction_item list \<Rightarrow> auction_item list" where
  "armors items =
     filter (\<lambda>item. case item_name item of
                None \<Rightarrow> False
              | Some n \<Rightarrow> n \<noteq> [] \<and> matches_armor_name n \<and> matches_armor_piece n
                          \<and> bin_status item = True) items"

definition equipments :: "auction_item list \<Rightarrow> auction_item list" where
  "equipments items =
     filter (\<lambda>item. case item_name item of
                None \<Rightarrow> False
              | Some n \<Rightarrow> n \<noteq> [] \<and> matches_equipment_name n \<and> bin_status item = True) items"

definition shards :: "auction_item list \<Rightarrow> auction_item list" where
  "shards items =
     filter (\<lambda>item. case item_name item of
                None \<Rightarrow> False
              | Some n \<Rightarrow> n \<noteq> [] \<and> contains ''Attribute Shard'' n
                          \<and> bin_status item = True) items"

text \<open>\<open>filter_items\<close>; \<open>now\<close> is the clock on line 92, \<open>now'\<close> the clock on line 89 when the
  refresh runs. The result is the service after the call and what the call returns.\<close>

definition filter_items ::
  "service \<Rightarrow> upstream \<Rightarrow> int \<Rightarrow> int \<Rightarrow> (service \<times> (error + auction_item list)) option" where
  "filter_items s up now now' =
     (case (if is_stale s now then refresh_data s up now' else Some (s, Inr ())) of
        None \<Rightarrow> None
      | Some (s', Inl e) \<Rightarrow> Some (s', Inl e)
      | Some (s', Inr u) \<Rightarrow>
          Some (s', Inr (armors (cached_items s') @ equipments (cached_items s')
                         @ shards (cached_items s'))))"

section \<open>Example data\<close>

text \<open>Concrete inputs: a listing with a given display name and fixed-price flag and the
  upstream entry it is built from, a listing without a name, an upstream that is down, one
  that serves a page and then goes down, one that serves two pages, and two services with
  listings in their cache.\<close>

definition listing :: "string \<Rightarrow> bool \<Rightarrow> auction_item" where
  "listing n b =
     \<lparr>uuid = ''u1'', item_name = Some n, item_lore = [], category = ''armor'',
      tier = ''EPIC'', claimed = False, bin_status = b, starting_bid = 100\<rparr>"

definition entry :: "string \<Rightarrow> bool \<Rightarrow> raw_entry" where
  "entry n b =
     \<lparr>j_uuid = Some ''u1'', j_item_name = Some (Some n), j_item_lore = None,
      j_category = Some ''armor'', j_tier = Some ''EPIC'', j_claimed = Some False,
      j_bin = Some b, j_starting_bid = Some 100\<rparr>"

definition always_failing :: upstream where
  "always_failing k p = RequestException"

definition stocked_service :: service where
  "stocked_service = \<lparr>last_fetched = 0, cached_items = [listing ''Crimson Helmet'' True]\<rparr>"

definition page_then_down :: upstream where
  "page_then_down k p =
     (if k = 0 then Body \<lparr>totalPages = Some 3, auctions = Some [entry ''Crimson Helmet'' True]\<rparr>
      else RequestException)"

definition two_pages_entries :: "nat \<Rightarrow> raw_entry list" where
  "two_pages_entries p =
     (if p = 0 then [entry ''Crimson Helmet'' True]
      else [entry ''Molten Cloak'' True, entry ''Aurora Boots'' False])"

definition two_pages_items :: "nat \<Rightarrow> auction_item list" where
  "two_pages_items p =
     (if p = 0 then [listing ''Crimson Helmet'' True]
      else [listing ''Molten Cloak'' True, listing ''Aurora Boots'' False])"

definition two_pages :: upstream where
  "two_pages k p =
     (if p < 2 then Body \<lparr>totalPages = Some 2, auctions = Some (two_pages_entries p)\<rparr>
      else RequestException)"

definition unnamed_listing :: auction_item where
  "unnamed_listing =
     \<lparr>uuid = ''u2'', item_name = None, item_lore = [], category = ''misc'',
      tier = ''COMMON'', claimed = False, bin_status = True, starting_bid = 5\<rparr>"

definition mixed_service :: service where
  "mixed_service =
     \<lparr>last_fetched = 0,
      cached_items = [listing ''Crimson Helmet'' True, listing ''Crimson Helmet'' False,
                      listing ''Crimson Attribute Shard Helmet'' True,
                      listing ''Molten Cloak'' True,
                      listing ''Crimson Molten Belt Attribute Shard Helmet'' True, listing [] True,
                      unnamed_listing]\<rparr>"

section \<open>Substrings, decoration codes and lines\<close>

lemma starts_with_iff: "starts_with p s \<longleftrightarrow> (\<exists>t. s = p @ t)"
  by (induction p s rule: starts_with.induct) auto

lemma contains_iff: "contains x s \<longleftrightarrow> (\<exists>pre post. s = pre @ x @ post)"
proof (induction s)
  case Nil
  show ?case by (auto simp: starts_with_iff)
next
  case (Cons c cs)
  show ?case
  proof
    assume "contains x (c # cs)"
    then consider "starts_with x (c # cs)" | "contains x cs" by auto
    then show "\<exists>pre post. c # cs = pre @ x @ post"
    proof cases
      case 1
      then obtain t where "c # cs = x @ t" by (auto simp: starts_with_iff)
      then have "c # cs = [] @ x @ t" by simp
      then show ?thesis by blast
    next
      case 2
      with Cons obtain pre post where "cs = pre @ x @ post" by auto
      then have "c # cs = (c # pre) @ x @ post" by simp
      then show ?thesis by blast
    qed
  next
    assume "\<exists>pre post. c # cs = pre @ x @ post"
    then obtain pre post where e: "c # cs = pre @ x @ post" by auto
    show "contains x (c # cs)"
    proof (cases pre)
      case Nil
      with e have "starts_with x (c # cs)" by (auto simp: starts_with_iff)
      then show ?thesis by simp
    next
      case (Cons d pre')
      with e have "cs = pre' @ x @ post" by simp
      with Cons.IH have "contains x cs" by blast
      then show ?thesis by simp
    qed
  qed
qed

lemma not_code_char_section_sign: "\<not> code_char section_sign"
  by (simp add: code_char_def section_sign_def)

lemma strip_codes_append_code:
  "code_char c \<Longrightarrow> strip_codes (xs @ section_sign # c # ys) = strip_codes xs @ strip_codes ys"
  by (induction xs rule: strip_codes.induct) (auto simp: not_code_char_section_sign)

lemma not_code_char_newline: "\<not> code_char newline" "newline \<noteq> section_sign"
  by (simp_all add: code_char_def section_sign_def newline_def)

lemma strip_codes_newline: "strip_codes (newline # ys) = newline # strip_codes ys"
  by (cases ys) (auto simp: not_code_char_newline)

lemma strip_codes_append_newline:
  "strip_codes (xs @ newline # ys) = strip_codes xs @ newline # strip_codes ys"
  by (induction xs rule: strip_codes.induct)
    (auto simp: not_code_char_newline strip_codes_newline)

lemma set_strip_codes: "set (strip_codes s) \<subseteq> set s"
  by (induction s rule: strip_codes.induct) auto

lemma split_lines_not_Nil: "split_lines s \<noteq> []"
  by (induction s) (auto split: list.splits)

lemma split_lines_no_newline: "newline \<notin> set s \<Longrightarrow> split_lines s = [s]"
  by (induction s) auto

lemma split_lines_append:
  "split_lines (xs @ newline # ys) = split_lines xs @ split_lines ys"
proof (induction xs)
  case Nil
  show ?case by simp
next
  case (Cons c cs)
  then show ?case 
    using split_lines_not_Nil [of cs]
    by (cases "split_lines cs") auto
qed

lemma line_step_append:
  "line_step acc line = acc @ line_step [] line"
  by (simp add: line_step_def Let_def split: option.splits)

lemma lines_loop_acc: "lines_loop acc ls = acc @ lines_loop [] ls"
proof (induction ls arbitrary: acc)
  case Nil
  show ?case by simp
next
  case (Cons l ls)
  have "lines_loop acc (l # ls) = lines_loop (line_step acc l) ls" by simp
  also have "\<dots> = line_step acc l @ lines_loop [] ls" by (rule Cons.IH)
  also have "\<dots> = acc @ line_step [] l @ lines_loop [] ls"
    using line_step_append [of acc l] by simp
  also have "line_step [] l @ lines_loop [] ls = lines_loop [] (l # ls)"
    using Cons.IH [of "line_step [] l"] by simp
  finally show ?case .
qed

lemma lines_loop_append: "lines_loop acc (ls @ ms) = lines_loop acc ls @ lines_loop [] ms"
proof (induction ls arbitrary: acc)
  case Nil
  show ?case using lines_loop_acc [of acc ms] by simp
next
  case (Cons l ls)
  then show ?case by simp
qed

lemma extract_append_newline:
  "extract_attributes_from_lore (a @ newline # b)
     = extract_attributes_from_lore a @ extract_attributes_from_lore b"
  by (simp add: extract_attributes_from_lore_def strip_codes_append_newline
      split_lines_append lines_loop_append)

lemma extract_single_line:
  "newline \<notin> set l \<Longrightarrow> extract_attributes_from_lore l = line_step [] (strip_codes l)"
proof -
  assume "newline \<notin> set l"
  then have "newline \<notin> set (strip_codes l)" using set_strip_codes [of l] by auto
  then show ?thesis
    by (simp add: extract_attributes_from_lore_def split_lines_no_newline)
qed

lemma match_here_Some:
  "match_here as s = Some m \<Longrightarrow>
     name m \<in> set as \<and> level m \<noteq> [] \<and> (\<forall>c\<in>set (level m). roman_char c) \<and>
     (\<exists>post. s = name m @ CHR '' '' # level m @ post \<and> (post = [] \<or> \<not> roman_char (hd post)))"
proof (induction as)
  case Nil
  then show ?case by simp
next
  case (Cons a as)
  show ?case
  proof (cases "match_here as s = Some m")
    case True
    with Cons.IH show ?thesis by auto
  next
    case False
    with Cons.prems obtain t where sw: "starts_with a s"
      and d: "drop (length a) s = CHR '' '' # t"
      and ne: "takeWhile roman_char t \<noteq> []"
      and m: "m = \<lparr>name = a, level = takeWhile roman_char t\<rparr>"
      by (auto split: if_splits list.splits)
    from sw obtain u where "s = a @ u" by (auto simp: starts_with_iff)
    with d have s: "s = a @ CHR '' '' # t" by simp
    have t: "t = takeWhile roman_char t @ dropWhile roman_char t" by simp
    have e: "s = name m @ CHR '' '' # level m @ dropWhile roman_char t"
      using s m by simp
    have h: "dropWhile roman_char t = [] \<or> \<not> roman_char (hd (dropWhile roman_char t))"
      using hd_dropWhile [of roman_char t] by blast
    have r: "\<forall>c\<in>set (level m). roman_char c"
      using m by (auto dest: set_takeWhileD)
    have "\<exists>post. s = name m @ CHR '' '' # level m @ post \<and> (post = [] \<or> \<not> roman_char (hd post))"
      using e h by blast
    moreover have "name m \<in> set (a # as)" "level m \<noteq> []" using m ne by simp_all
    ultimately show ?thesis using r by blast
  qed
qed

lemma match_here_None:
  "match_here as s = None \<Longrightarrow> a \<in> set as \<Longrightarrow> roman_char r \<Longrightarrow> s \<noteq> a @ CHR '' '' # r # t"
proof (induction as)
  case Nil
  then show ?case by simp
next
  case (Cons b bs)
  show ?case
  proof (cases "a = b")
    case True
    show ?thesis
    proof
      assume s: "s = a @ CHR '' '' # r # t"
      then have "starts_with b s" using True by (auto simp: starts_with_iff)
      moreover have "drop (length b) s = CHR '' '' # r # t" using s True by simp
      moreover have "takeWhile roman_char (r # t) \<noteq> []" using Cons.prems(3) by simp
      ultimately have "match_here (b # bs) s \<noteq> None" by simp
      with Cons.prems(1) show False by simp
    qed
  next
    case False
    with Cons.prems have "a \<in> set bs" by simp
    moreover from Cons.prems(1) have "match_here bs s = None"
      by (auto split: if_splits list.splits)
    ultimately show ?thesis using Cons.IH Cons.prems(3) by blast
  qed
qed

lemma attribute_search_Some:
  "attribute_search s = Some m \<Longrightarrow>
     \<exists>pre post. s = pre @ name m @ CHR '' '' # level m @ post
       \<and> (post = [] \<or> \<not> roman_char (hd post))
       \<and> (\<forall>k<length pre. \<forall>a\<in>set valid_armor_attributes. \<forall>r t.
             roman_char r \<longrightarrow> drop k s \<noteq> a @ CHR '' '' # r # t)"
proof (induction s)
  case Nil
  then have "match_here valid_armor_attributes [] = Some m" by simp
  from match_here_Some [OF this] show ?case by simp
next
  case (Cons c cs)
  show ?case
  proof (cases "match_here valid_armor_attributes (c # cs)")
    case (Some m')
    with Cons.prems have "match_here valid_armor_attributes (c # cs) = Some m" by simp
    from match_here_Some [OF this] obtain post where
      "c # cs = [] @ name m @ CHR '' '' # level m @ post" "post = [] \<or> \<not> roman_char (hd post)"
      by auto
    then show ?thesis by (metis length_0_conv not_less_zero list.size(3))
  next
    case None
    with Cons.prems have "attribute_search cs = Some m" by simp
    from Cons.IH [OF this] obtain pre post where
      e: "cs = pre @ name m @ CHR '' '' # level m @ post"
      and p: "post = [] \<or> \<not> roman_char (hd post)"
      and f: "\<forall>k<length pre. \<forall>a\<in>set valid_armor_attributes. \<forall>r t.
             roman_char r \<longrightarrow> drop k cs \<noteq> a @ CHR '' '' # r # t"
      by blast
    have "\<forall>k<length (c # pre). \<forall>a\<in>set valid_armor_attributes. \<forall>r t.
             roman_char r \<longrightarrow> drop k (c # cs) \<noteq> a @ CHR '' '' # r # t"
    proof (intro allI impI ballI)
      fix k a r t
      assume k: "k < length (c # pre)" and a: "a \<in> set valid_armor_attributes"
        and r: "roman_char r"
      show "drop k (c # cs) \<noteq> a @ CHR '' '' # r # t"
      proof (cases k)
        case 0
        then show ?thesis using match_here_None [OF None a r] by simp
      next
        case (Suc k')
        with k have "k' < length pre" by simp
        with f a r have "drop k' cs \<noteq> a @ CHR '' '' # r # t" by blast
        with Suc show ?thesis by simp
      qed
    qed
    moreover have "c # cs = (c # pre) @ name m @ CHR '' '' # level m @ post"
      using e by simp
    ultimately show ?thesis using p by blast
  qed
qed

lemma attribute_search_in:
  "attribute_search s = Some m \<Longrightarrow>
     name m \<in> set valid_armor_attributes \<and> level m \<noteq> [] \<and> (\<forall>c\<in>set (level m). roman_char c)"
proof (induction s)
  case Nil
  then show ?case using match_here_Some [of valid_armor_attributes "[]" m] by simp
next
  case (Cons c cs)
  then show ?case using match_here_Some [of valid_armor_attributes "c # cs" m]
    by (auto split: option.splits)
qed

lemma attribute_search_None:
  "attribute_search s = None \<Longrightarrow> a \<in> set valid_armor_attributes \<Longrightarrow> roman_char r \<Longrightarrow>
     s \<noteq> pre @ a @ CHR '' '' # r # t"
proof (induction s arbitrary: pre)
  case Nil
  then show ?case by simp
next
  case (Cons c cs)
  from Cons.prems(1) have n: "match_here valid_armor_attributes (c # cs) = None"
    and n': "attribute_search cs = None"
    by (auto split: option.splits)
  show ?case
  proof (cases pre)
    case Nil
    then show ?thesis using match_here_None [OF n Cons.prems(2,3)] by simp
  next
    case (Cons d pre')
    then show ?thesis using Cons.IH [OF n' Cons.prems(2,3), of pre'] by simp
  qed
qed

section \<open>The fetch loop\<close>

lemma while_after_iterations:
  "after_iterations up n st = Some st' \<Longrightarrow> while_more_pages up st = while_more_pages up st'"
proof (induction n arbitrary: st)
  case 0
  then show ?case by simp
next
  case (Suc n)
  from Suc.prems obtain st1 where m: "more_pages st" and b: "loop_body up st = Continue st1"
    and a: "after_iterations up n st1 = Some st'"
    by (auto split: if_splits step.splits)
  have "while_more_pages up st = while_more_pages up st1"
    by (subst while_more_pages.simps) (simp add: m b)
  with Suc.IH [OF a] show ?case by simp
qed

lemma loop_body_Break:
  "loop_body up st = Break st' \<Longrightarrow>
     up (requests st) (page st) = RequestException \<and> retry_attempts st \<le> 1
     \<and> auction_items st' = auction_items st \<and> retry_attempts st' = retry_attempts st - 1"
  by (auto simp: loop_body_def Let_def split: response.splits sum.splits if_splits)

lemma while_Break:
  "more_pages st \<Longrightarrow> loop_body up st = Break st' \<Longrightarrow>
     while_more_pages up st = Some (Inr (auction_items st'))"
  by (subst while_more_pages.simps) simp

lemma all_fail:
  assumes "\<forall>k<5. up k 0 = RequestException"
  shows "get_auction_items up = Some (Inr [])"
proof -
  have u: "up 0 0 = RequestException" "up 1 0 = RequestException" "up 2 0 = RequestException"
    "up 3 0 = RequestException" "up 4 0 = RequestException"
    using assms by simp_all
  have a: "after_iterations up 4 initial_state =
      Some \<lparr>auction_items = [], page = 0, more_pages = True, retry_attempts = 1, requests = 4\<rparr>"
    using u by (simp add: eval_nat_numeral initial_state_def loop_body_def Let_def)
  have "loop_body up \<lparr>auction_items = [], page = 0, more_pages = True, retry_attempts = 1, requests = 4\<rparr>
     = Break \<lparr>auction_items = [], page = 0, more_pages = True, retry_attempts = 0, requests = 5\<rparr>"
    using u by (simp add: loop_body_def Let_def)
  then have "while_more_pages up \<lparr>auction_items = [], page = 0, more_pages = True, retry_attempts = 1, requests = 4\<rparr>
     = Some (Inr [])"
    using while_Break by force
  with while_after_iterations [OF a] show ?thesis by (simp add: get_auction_items_def)
qed

lemma append_entries_ok:
  "map make_item es = map Inr is \<Longrightarrow> append_entries acc es = Inr (acc @ is)"
proof (induction es arbitrary: acc "is")
  case Nil
  then show ?case by simp
next
  case (Cons e es)
  then obtain i is' where "is = i # is'" "make_item e = Inr i" "map make_item es = map Inr is'"
    by (cases "is") auto
  with Cons.IH [of is' "acc @ [i]"] show ?case by simp
qed

lemma fetch_pages:
  assumes up: "\<forall>p<n. up p p = Body \<lparr>totalPages = Some (int n), auctions = Some (entries p)\<rparr>"
    and ok: "\<forall>p<n. map make_item (entries p) = map Inr (items p)"
  shows "k < n \<Longrightarrow>
     while_more_pages up \<lparr>auction_items = acc, page = k, more_pages = True,
                           retry_attempts = r, requests = k\<rparr>
       = Some (Inr (acc @ concat (map items [k..<n])))"
proof (induction "n - k" arbitrary: k acc)
  case 0
  then show ?case by simp
next
  case (Suc d)
  let ?st = "\<lparr>auction_items = acc, page = k, more_pages = True, retry_attempts = r, requests = k\<rparr>"
  let ?st' = "\<lparr>auction_items = acc @ items k, page = k + 1, more_pages = (int k + 1 < int n),
               retry_attempts = r, requests = k + 1\<rparr>"
  from Suc.prems up have r: "up k k = Body \<lparr>totalPages = Some (int n), auctions = Some (entries k)\<rparr>"
    by simp
  from Suc.prems ok have "append_entries acc (entries k) = Inr (acc @ items k)"
    by (simp add: append_entries_ok)
  with r have b: "loop_body up ?st = Continue ?st'"
    by (simp add: loop_body_def required_def)
  have w: "while_more_pages up ?st = while_more_pages up ?st'"
    by (subst while_more_pages.simps) (simp add: b)
  have u: "[k..<n] = k # [Suc k..<n]" using Suc.prems by (simp add: upt_conv_Cons)
  show ?case
  proof (cases "Suc k < n")
    case True
    then have m: "(int k + 1 < int n) = True" by simp
    from Suc.hyps(2) have "d = n - Suc k" by simp
    from Suc.hyps(1) [OF this True, of "acc @ items k"] show ?thesis
      unfolding w m using u by simp
  next
    case False
    then have m: "(int k + 1 < int n) = False" by simp
    from False Suc.prems have "[Suc k..<n] = []" by simp
    with u have "[k..<n] = [k]" by simp
    moreover have "while_more_pages up ?st' = Some (Inr (acc @ items k))"
      unfolding m by (subst while_more_pages.simps) simp
    ultimately show ?thesis using w by simp
  qed
qed

lemma length_items:
  "\<forall>p<n. map make_item (entries p) = map Inr (items p) \<Longrightarrow>
     length (concat (map items [0..<n])) = (\<Sum>p<n. length (entries p))"
proof (induction n)
  case 0
  show ?case by simp
next
  case (Suc n)
  then have "length (concat (map items [0..<n])) = (\<Sum>p<n. length (entries p))" by simp
  moreover from Suc.prems have "map make_item (entries n) = map Inr (items n)" by simp
  then have "length (items n) = length (entries n)" by (metis length_map)
  ultimately show ?case by simp
qed

lemma code_char_iff: "code_char c \<longleftrightarrow> c \<in> set ''0123456789abcdefklmnor''"
  by (cases c) (simp add: code_char_def Let_def)

lemma refresh_data_cases:
  "refresh_data s up now = Some (s', r) \<Longrightarrow>
     (r = Inr () \<and> last_fetched s' = now \<and> get_auction_items up = Some (Inr (cached_items s')))
     \<or> (\<exists>e. r = Inl e \<and> s' = s \<and> get_auction_items up = Some (Inl e))"
  by (auto simp: refresh_data_def split: option.splits sum.splits)

lemma roman_char_iff: "roman_char c \<longleftrightarrow> c \<in> set ''IVXLCDM''"
  by (simp add: roman_char_def)

lemma line_step_Nil:
  "line_step [] line =
     (case attribute_search line of None \<Rightarrow> [] | Some m \<Rightarrow> [m])
     @ (if contains ''Attribute Shard'' line then [shard_entry] else [])"
  by (simp add: line_step_def shard_search_def Let_def split: option.splits)

lemma make_item_entry: "make_item (entry n b) = Inr (listing n b)"
  by (simp add: make_item_def entry_def listing_def required_def)

lemma loop_invariant:
  "after_iterations up n st0 = Some st \<Longrightarrow>
     1 \<le> retry_attempts st0 \<Longrightarrow> int (requests st0) = int (page st0) + 5 - retry_attempts st0 \<Longrightarrow>
     1 \<le> retry_attempts st \<and> int (requests st) = int (page st) + 5 - retry_attempts st"
proof (induction n arbitrary: st0)
  case 0
  then show ?case by simp
next
  case (Suc n)
  from Suc.prems(1) obtain st1 where b: "loop_body up st0 = Continue st1"
    and a: "after_iterations up n st1 = Some st"
    by (auto split: if_splits step.splits)
  from b Suc.prems(2,3) have "1 \<le> retry_attempts st1"
    "int (requests st1) = int (page st1) + 5 - retry_attempts st1"
    by (auto simp: loop_body_def Let_def split: response.splits sum.splits if_splits)
  with Suc.IH [OF a] show ?case by simp
qed

lemma contains_lower_iff:
  "contains (lower p) (lower n) \<longleftrightarrow> (\<exists>pre w post. n = pre @ w @ post \<and> lower w = lower p)"
proof -
  have "contains (lower p) (lower n) \<longleftrightarrow> (\<exists>a b. lower n = a @ lower p @ b)"
    by (rule contains_iff)
  also have "\<dots> \<longleftrightarrow> (\<exists>pre w post. n = pre @ w @ post \<and> lower w = lower p)"
  proof
    assume "\<exists>a b. lower n = a @ lower p @ b"
    then obtain a b where "map lower_char n = a @ (lower p @ b)" by (auto simp: lower_def)
    then obtain us vs where n: "n = us @ vs" and v: "lower p @ b = map lower_char vs"
      unfolding map_eq_append_conv by blast
    from v obtain w post where "vs = w @ post" "lower p = map lower_char w"
      unfolding append_eq_map_conv by blast
    with n show "\<exists>pre w post. n = pre @ w @ post \<and> lower w = lower p"
      by (auto simp: lower_def)
  next
    assume "\<exists>pre w post. n = pre @ w @ post \<and> lower w = lower p"
    then obtain pre w post where "n = pre @ w @ post" "lower w = lower p" by auto
    then have "lower n = lower pre @ lower p @ lower post" by (simp add: lower_def)
    then show "\<exists>a b. lower n = a @ lower p @ b" by blast
  qed
  finally show ?thesis .
qed

lemma filter_items_result:
  "filter_items s up now now' = Some (s', Inr res) \<Longrightarrow>
     res = armors (cached_items s') @ equipments (cached_items s') @ shards (cached_items s')
     \<and> (\<not> is_stale s now \<longrightarrow> s' = s)"
  by (auto simp: filter_items_def split: if_splits option.splits sum.splits prod.splits)

lemma filter_items_fresh:
  "\<not> is_stale s now \<Longrightarrow>
     filter_items s up now now'
       = Some (s, Inr (armors (cached_items s) @ equipments (cached_items s) @ shards (cached_items s)))"
  by (simp add: filter_items_def)

lemma count_list_filter:
  "count_list (filter P xs) x = (if P x then count_list xs x else 0)"
  by (induction xs) auto

lemma mixed_fresh: "\<not> is_stale mixed_service 60000000"
  by (simp add: is_stale_def mixed_service_def timedelta_minutes_def)

lemma example_names:
  "matches_armor_name ''Crimson Helmet''" "matches_armor_piece ''Crimson Helmet''"
  "\<not> matches_equipment_name ''Crimson Helmet''" "\<not> contains ''Attribute Shard'' ''Crimson Helmet''"
  "matches_armor_name ''Crimson Attribute Shard Helmet''"
  "matches_armor_piece ''Crimson Attribute Shard Helmet''"
  "\<not> matches_equipment_name ''Crimson Attribute Shard Helmet''"
  "contains ''Attribute Shard'' ''Crimson Attribute Shard Helmet''"
  "\<not> matches_armor_name ''Molten Cloak''" "\<not> matches_armor_piece ''Molten Cloak''"
  "matches_equipment_name ''Molten Cloak''" "\<not> contains ''Attribute Shard'' ''Molten Cloak''"
  "matches_armor_name ''Crimson Molten Belt Attribute Shard Helmet''"
  "matches_armor_piece ''Crimson Molten Belt Attribute Shard Helmet''"
  "matches_equipment_name ''Crimson Molten Belt Attribute Shard Helmet''"
  "contains ''Attribute Shard'' ''Crimson Molten Belt Attribute Shard Helmet''"
  by code_simp+

lemma mixed_filter:
  "filter_items mixed_service always_failing 60000000 60000001
     = Some (mixed_service,
             Inr [listing ''Crimson Helmet'' True, listing ''Crimson Attribute Shard Helmet'' True,
                  listing ''Crimson Molten Belt Attribute Shard Helmet'' True,
                  listing ''Molten Cloak'' True,
                  listing ''Crimson Molten Belt Attribute Shard Helmet'' True,
                  listing ''Crimson Attribute Shard Helmet'' True,
                  listing ''Crimson Molten Belt Attribute Shard Helmet'' True])"
proof -
  note n = example_names
  have a: "armors (cached_items mixed_service)
      = [listing ''Crimson Helmet'' True, listing ''Crimson Attribute Shard Helmet'' True,
         listing ''Crimson Molten Belt Attribute Shard Helmet'' True]"
    using n by (simp add: armors_def mixed_service_def listing_def unnamed_listing_def)
  have e: "equipments (cached_items mixed_service)
      = [listing ''Molten Cloak'' True, listing ''Crimson Molten Belt Attribute Shard Helmet'' True]"
    using n by (simp add: equipments_def mixed_service_def listing_def unnamed_listing_def)
  have s: "shards (cached_items mixed_service)
      = [listing ''Crimson Attribute Shard Helmet'' True,
         listing ''Crimson Molten Belt Attribute Shard Helmet'' True]"
    using n by (simp add: shards_def mixed_service_def listing_def unnamed_listing_def)
  show ?thesis unfolding filter_items_fresh [OF mixed_fresh] a e s by simp
qed

lemma listing_neq: "listing n b = listing m c \<longleftrightarrow> n = m \<and> b = c"
  by (auto simp: listing_def)

lemma in_armors:
  "x \<in> set (armors c) \<longleftrightarrow>
     x \<in> set c \<and> bin_status x
     \<and> (\<exists>n. item_name x = Some n \<and> n \<noteq> [] \<and> matches_armor_name n \<and> matches_armor_piece n)"
  by (auto simp: armors_def split: option.splits)

lemma in_equipments:
  "x \<in> set (equipments c) \<longleftrightarrow>
     x \<in> set c \<and> bin_status x
     \<and> (\<exists>n. item_name x = Some n \<and> n \<noteq> [] \<and> matches_equipment_name n)"
  by (auto simp: equipments_def split: option.splits)

lemma in_shards:
  "x \<in> set (shards c) \<longleftrightarrow>
     x \<in> set c \<and> bin_status x
     \<and> (\<exists>n. item_name x = Some n \<and> n \<noteq> [] \<and> contains ''Attribute Shard'' n)"
  by (auto simp: shards_def split: option.splits)

lemma count_list_branches:
  assumes "item_name x = Some n" "n \<noteq> []" "bin_status x"
  shows "count_list (armors c @ equipments c @ shards c) x
     = count_list c x * ((if matches_armor_name n \<and> matches_armor_piece n then 1 else 0)
                         + (if matches_equipment_name n then 1 else 0)
                         + (if contains ''Attribute Shard'' n then 1 else 0))"
  using assms
  by (simp add: armors_def equipments_def shards_def count_list_filter distrib_left)

lemma refresh_all_fail:
  "refresh_data s always_failing t = Some (\<lparr>last_fetched = t, cached_items = []\<rparr>, Inr ())"
proof -
  have "\<forall>k<5. always_failing k 0 = RequestException" by (simp add: always_failing_def)
  then have "get_auction_items always_failing = Some (Inr [])" by (rule all_fail)
  then show ?thesis by (simp add: refresh_data_def)
qed

section \<open>Claims\<close>

subsection \<open>C1: a fetch cycle that fails entirely\<close>

text \<open>
  C1, as stated, fails: a service that holds one listing refreshes against an upstream that
  is down. The five requests for page 0 fail, \<open>get_auction_items\<close> returns the empty list,
  and \<open>refresh_data\<close> stores it with the new time stamp: the listing held before is gone.
\<close>

theorem total_failure_empties_cache:
  "refresh_data stocked_service always_failing 1000000
     = Some (\<lparr>last_fetched = 1000000, cached_items = []\<rparr>, Inr ())
   \<and> cached_items stocked_service = [listing ''Crimson Helmet'' True]
   \<and> last_fetched stocked_service = 0"
proof -
  have "\<forall>k<5. always_failing k 0 = RequestException" by (simp add: always_failing_def)
  then have "get_auction_items always_failing = Some (Inr [])" by (rule all_fail)
  then show ?thesis by (simp add: refresh_data_def stocked_service_def)
qed

text \<open>
  C1, amended: when the first five requests (all for page 0) fail, the fetch returns the
  empty list and the refresh replaces the cached items by it, stamped with the time of the
  refresh. Whenever a refresh returns, the cached items are exactly what that fetch
  returned; when the fetch raises, the service is left as it was.
\<close>

theorem refresh_snapshot_is_fetch_result:
  "(\<forall>s up now. (\<forall>k<5. up k 0 = RequestException) \<longrightarrow>
      get_auction_items up = Some (Inr [])
      \<and> refresh_data s up now = Some (\<lparr>last_fetched = now, cached_items = []\<rparr>, Inr ()))
   \<and> (\<forall>s up now s' r. refresh_data s up now = Some (s', r) \<longrightarrow>
        (r = Inr () \<and> last_fetched s' = now \<and> get_auction_items up = Some (Inr (cached_items s')))
        \<or> (\<exists>e. r = Inl e \<and> s' = s \<and> get_auction_items up = Some (Inl e)))"
proof (intro conjI allI impI)
  fix s :: service and up :: upstream and now :: int
  assume a: "\<forall>k<5. up k 0 = RequestException"
  show "get_auction_items up = Some (Inr [])" using a by (rule all_fail)
  then show "refresh_data s up now = Some (\<lparr>last_fetched = now, cached_items = []\<rparr>, Inr ())"
    by (simp add: refresh_data_def)
next
  fix s up now s' r
  assume "refresh_data s up now = Some (s', r)"
  then show "(r = Inr () \<and> last_fetched s' = now \<and> get_auction_items up = Some (Inr (cached_items s')))
        \<or> (\<exists>e. r = Inl e \<and> s' = s \<and> get_auction_items up = Some (Inl e))"
    by (rule refresh_data_cases)
qed

theorem refresh_snapshot_is_fetch_result_witness:
  "always_failing 0 0 = RequestException \<and> always_failing 4 0 = RequestException
   \<and> refresh_data stocked_service always_failing 7
       = Some (\<lparr>last_fetched = 7, cached_items = []\<rparr>, Inr ())
   \<and> last_fetched \<lparr>last_fetched = 7, cached_items = []\<rparr> = (7::int)
   \<and> get_auction_items always_failing = Some (Inr (cached_items \<lparr>last_fetched = 7, cached_items = []\<rparr>))"
proof -
  have h: "\<forall>k<5. always_failing k 0 = RequestException" by (simp add: always_failing_def)
  from refresh_snapshot_is_fetch_result have
    r: "refresh_data stocked_service always_failing 7
       = Some (\<lparr>last_fetched = 7, cached_items = []\<rparr>, Inr ())"
    using h by blast
  from refresh_snapshot_is_fetch_result r have
    "(Inr () = (Inr () :: error + unit) \<and> last_fetched \<lparr>last_fetched = 7, cached_items = []\<rparr> = (7::int)
      \<and> get_auction_items always_failing = Some (Inr (cached_items \<lparr>last_fetched = 7, cached_items = []\<rparr>)))
     \<or> (\<exists>e. (Inr () :: error + unit) = Inl e \<and> \<lparr>last_fetched = 7, cached_items = []\<rparr> = stocked_service
          \<and> get_auction_items always_failing = Some (Inl e))"
    by blast
  with r show ?thesis by (simp add: always_failing_def)
qed

subsection \<open>C2: decoration codes are stripped before matching\<close>

text \<open>
  C2: the description "\<section>aLife Regeneration \<section>6V", newline, "\<section>7Attribute Shard" yields
  Life Regeneration at level V, then the shard entry with level N/A. The characters of a
  decoration code are \<open>0-9\<close>, \<open>a-f\<close>, \<open>k-o\<close> and \<open>r\<close>; a code is removed wherever
  it stands in the text, and the lines are matched on the stripped text.
\<close>

theorem extract_strips_codes:
  "extract_attributes_from_lore
     ([section_sign, CHR ''a''] @ ''Life Regeneration '' @ [section_sign, CHR ''6''] @ ''V''
      @ [newline] @ [section_sign, CHR ''7''] @ ''Attribute Shard'')
     = [\<lparr>name = ''Life Regeneration'', level = ''V''\<rparr>,
        \<lparr>name = ''Attribute Shard'', level = ''N/A''\<rparr>]
   \<and> (\<forall>c. code_char c \<longleftrightarrow> c \<in> set ''0123456789abcdefklmnor'')
   \<and> (\<forall>xs c ys. code_char c \<longrightarrow>
        strip_codes (xs @ section_sign # c # ys) = strip_codes xs @ strip_codes ys
        \<and> extract_attributes_from_lore (xs @ section_sign # c # ys)
            = lines_loop [] (split_lines (strip_codes xs @ strip_codes ys)))"
proof (intro conjI allI impI)
  show "extract_attributes_from_lore
     ([section_sign, CHR ''a''] @ ''Life Regeneration '' @ [section_sign, CHR ''6''] @ ''V''
      @ [newline] @ [section_sign, CHR ''7''] @ ''Attribute Shard'')
     = [\<lparr>name = ''Life Regeneration'', level = ''V''\<rparr>,
        \<lparr>name = ''Attribute Shard'', level = ''N/A''\<rparr>]"
    by code_simp
next
  fix c show "code_char c \<longleftrightarrow> c \<in> set ''0123456789abcdefklmnor''" by (rule code_char_iff)
next
  fix xs c ys assume c: "code_char c"
  then show s: "strip_codes (xs @ section_sign # c # ys) = strip_codes xs @ strip_codes ys"
    by (rule strip_codes_append_code)
  show "extract_attributes_from_lore (xs @ section_sign # c # ys)
            = lines_loop [] (split_lines (strip_codes xs @ strip_codes ys))"
    unfolding extract_attributes_from_lore_def s ..
qed

theorem extract_strips_codes_witness:
  "code_char (CHR ''6'') \<and> CHR ''6'' \<in> set ''0123456789abcdefklmnor''
   \<and> strip_codes (''Speed '' @ section_sign # CHR ''6'' # ''IV'') = strip_codes ''Speed '' @ strip_codes ''IV''
   \<and> extract_attributes_from_lore (''Speed '' @ section_sign # CHR ''6'' # ''IV'')
       = [\<lparr>name = ''Speed'', level = ''IV''\<rparr>]"
proof -
  have m: "CHR ''6'' \<in> set ''0123456789abcdefklmnor''" by simp
  with extract_strips_codes have h: "code_char (CHR ''6'')" by blast
  from extract_strips_codes h have
    "strip_codes (''Speed '' @ section_sign # CHR ''6'' # ''IV'') = strip_codes ''Speed '' @ strip_codes ''IV''"
    "extract_attributes_from_lore (''Speed '' @ section_sign # CHR ''6'' # ''IV'')
       = lines_loop [] (split_lines (strip_codes ''Speed '' @ strip_codes ''IV''))"
    by blast+
  moreover have "lines_loop [] (split_lines (strip_codes ''Speed '' @ strip_codes ''IV''))
      = [\<lparr>name = ''Speed'', level = ''IV''\<rparr>]"
    by code_simp
  ultimately show ?thesis using h m by simp
qed

subsection \<open>C3: at most one regular match per line\<close>

text \<open>
  C3: the line "Mana Pool VII Mana Pool IX" yields the one entry Mana Pool at level VII.
  There are 16 attribute names. A text without a newline yields at most one regular entry,
  the result of the search on the stripped line, followed by at most one shard entry when
  the stripped line contains "Attribute Shard". A search that succeeds returns one of the
  names followed by a space and the longest run of level characters at the leftmost
  position where some name is followed by a space and a level character; a search that
  fails means no such position exists. The entries of the text before a newline precede
  those of the text after it, and nothing is removed: the same line twice gives the same
  entry twice.
\<close>

theorem lore_one_regular_match_per_line:
  "extract_attributes_from_lore ''Mana Pool VII Mana Pool IX''
      = [\<lparr>name = ''Mana Pool'', level = ''VII''\<rparr>]
   \<and> length valid_armor_attributes = 16
   \<and> (\<forall>l. newline \<notin> set l \<longrightarrow>
        extract_attributes_from_lore l =
          (case attribute_search (strip_codes l) of None \<Rightarrow> [] | Some m \<Rightarrow> [m])
          @ (if contains ''Attribute Shard'' (strip_codes l) then [shard_entry] else []))
   \<and> (\<forall>s m. attribute_search s = Some m \<longrightarrow>
        name m \<in> set valid_armor_attributes \<and> level m \<noteq> []
        \<and> (\<forall>c\<in>set (level m). c \<in> set ''IVXLCDM'')
        \<and> (\<exists>pre post. s = pre @ name m @ CHR '' '' # level m @ post
              \<and> (post = [] \<or> hd post \<notin> set ''IVXLCDM'')
              \<and> (\<forall>k<length pre. \<forall>a\<in>set valid_armor_attributes. \<forall>r t.
                    r \<in> set ''IVXLCDM'' \<longrightarrow> drop k s \<noteq> a @ CHR '' '' # r # t)))
   \<and> (\<forall>s. attribute_search s = None \<longrightarrow>
        (\<forall>pre a r t. a \<in> set valid_armor_attributes \<and> r \<in> set ''IVXLCDM''
            \<longrightarrow> s \<noteq> pre @ a @ CHR '' '' # r # t))
   \<and> (\<forall>a b. extract_attributes_from_lore (a @ newline # b)
                = extract_attributes_from_lore a @ extract_attributes_from_lore b)"
proof -
  have 1: "extract_attributes_from_lore ''Mana Pool VII Mana Pool IX''
      = [\<lparr>name = ''Mana Pool'', level = ''VII''\<rparr>]"
    by code_simp
  have 2: "length valid_armor_attributes = 16" by (simp add: valid_armor_attributes_def)
  have 3: "\<forall>l. newline \<notin> set l \<longrightarrow>
        extract_attributes_from_lore l =
          (case attribute_search (strip_codes l) of None \<Rightarrow> [] | Some m \<Rightarrow> [m])
          @ (if contains ''Attribute Shard'' (strip_codes l) then [shard_entry] else [])"
    by (simp add: extract_single_line line_step_Nil)
  have 4: "\<forall>s m. attribute_search s = Some m \<longrightarrow>
        name m \<in> set valid_armor_attributes \<and> level m \<noteq> []
        \<and> (\<forall>c\<in>set (level m). c \<in> set ''IVXLCDM'')
        \<and> (\<exists>pre post. s = pre @ name m @ CHR '' '' # level m @ post
              \<and> (post = [] \<or> hd post \<notin> set ''IVXLCDM'')
              \<and> (\<forall>k<length pre. \<forall>a\<in>set valid_armor_attributes. \<forall>r t.
                    r \<in> set ''IVXLCDM'' \<longrightarrow> drop k s \<noteq> a @ CHR '' '' # r # t))"
  proof (intro allI impI)
    fix s m assume a: "attribute_search s = Some m"
    show "name m \<in> set valid_armor_attributes \<and> level m \<noteq> []
        \<and> (\<forall>c\<in>set (level m). c \<in> set ''IVXLCDM'')
        \<and> (\<exists>pre post. s = pre @ name m @ CHR '' '' # level m @ post
              \<and> (post = [] \<or> hd post \<notin> set ''IVXLCDM'')
              \<and> (\<forall>k<length pre. \<forall>a\<in>set valid_armor_attributes. \<forall>r t.
                    r \<in> set ''IVXLCDM'' \<longrightarrow> drop k s \<noteq> a @ CHR '' '' # r # t))"
      using attribute_search_in [OF a] attribute_search_Some [OF a]
      unfolding roman_char_iff by blast
  qed
  have 5: "\<forall>s. attribute_search s = None \<longrightarrow>
        (\<forall>pre a r t. a \<in> set valid_armor_attributes \<and> r \<in> set ''IVXLCDM''
            \<longrightarrow> s \<noteq> pre @ a @ CHR '' '' # r # t)"
    using attribute_search_None unfolding roman_char_iff by blast
  have 6: "\<forall>a b. extract_attributes_from_lore (a @ newline # b)
                = extract_attributes_from_lore a @ extract_attributes_from_lore b"
    by (simp add: extract_append_newline)
  show ?thesis by (intro conjI) (rule 1 2 3 4 5 6)+
qed

theorem lore_one_regular_match_per_line_witness:
  "newline \<notin> set ''Speed I Attribute Shard Speed V''
   \<and> extract_attributes_from_lore ''Speed I Attribute Shard Speed V''
       = [\<lparr>name = ''Speed'', level = ''I''\<rparr>, shard_entry]
   \<and> attribute_search ''Mana Pool 7 Mana Pool IX'' = Some \<lparr>name = ''Mana Pool'', level = ''IX''\<rparr>
   \<and> (\<exists>pre post. ''Mana Pool 7 Mana Pool IX'' = pre @ ''Mana Pool'' @ CHR '' '' # ''IX'' @ post)
   \<and> attribute_search ''Mana Pool 7'' = None
   \<and> ''Mana Pool 7'' \<noteq> ''Mana Pool'' @ CHR '' '' # CHR ''I'' # []
   \<and> extract_attributes_from_lore (''Speed I'' @ newline # ''Speed I'')
       = [\<lparr>name = ''Speed'', level = ''I''\<rparr>, \<lparr>name = ''Speed'', level = ''I''\<rparr>]"
proof -
  have n: "newline \<notin> set ''Speed I Attribute Shard Speed V''" by (simp add: newline_def)
  have s: "strip_codes ''Speed I Attribute Shard Speed V'' = ''Speed I Attribute Shard Speed V''"
    by code_simp
  have a1: "attribute_search ''Speed I Attribute Shard Speed V'' = Some \<lparr>name = ''Speed'', level = ''I''\<rparr>"
    by code_simp
  have c1: "contains ''Attribute Shard'' ''Speed I Attribute Shard Speed V''" by code_simp
  from lore_one_regular_match_per_line n have "extract_attributes_from_lore ''Speed I Attribute Shard Speed V'' =
          (case attribute_search (strip_codes ''Speed I Attribute Shard Speed V'') of None \<Rightarrow> [] | Some m \<Rightarrow> [m])
          @ (if contains ''Attribute Shard'' (strip_codes ''Speed I Attribute Shard Speed V'') then [shard_entry] else [])"
    by blast
  then have e1: "extract_attributes_from_lore ''Speed I Attribute Shard Speed V''
       = [\<lparr>name = ''Speed'', level = ''I''\<rparr>, shard_entry]"
    by (simp only: s a1 c1 option.case if_True append.simps)
  have a2: "attribute_search ''Mana Pool 7 Mana Pool IX'' = Some \<lparr>name = ''Mana Pool'', level = ''IX''\<rparr>"
    by code_simp
  from lore_one_regular_match_per_line a2 have e2: "\<exists>pre post. ''Mana Pool 7 Mana Pool IX''
      = pre @ name \<lparr>name = ''Mana Pool'', level = ''IX''\<rparr> @ CHR '' '' # level \<lparr>name = ''Mana Pool'', level = ''IX''\<rparr> @ post"
    by blast
  have a3: "attribute_search ''Mana Pool 7'' = None" by code_simp
  have e3: "''Mana Pool 7'' \<noteq> ''Mana Pool'' @ CHR '' '' # CHR ''I'' # []" by simp
  from lore_one_regular_match_per_line have e4: "extract_attributes_from_lore (''Speed I'' @ newline # ''Speed I'')
       = extract_attributes_from_lore ''Speed I'' @ extract_attributes_from_lore ''Speed I''"
    by blast
  have e5: "extract_attributes_from_lore ''Speed I'' = [\<lparr>name = ''Speed'', level = ''I''\<rparr>]"
    by code_simp
  from n e1 a2 e2 a3 e3 e4 e5 show ?thesis by simp
qed

subsection \<open>C4: an exhausted retry budget returns what was accumulated\<close>

text \<open>
  C4: when, after any number of runs of the loop body, the next run takes the \<open>break\<close>
  (the request fails and no retry is left), \<open>get_auction_items\<close> returns, without raising,
  the list accumulated up to there. This happens exactly on the fifth failed request of
  the call: the budget is not renewed by a page that succeeds.
\<close>

theorem fetch_returns_partial_on_exhaustion:
  assumes "after_iterations up n initial_state = Some st"
    and "more_pages st"
    and "loop_body up st = Break st'"
  shows "get_auction_items up = Some (Inr (auction_items st))
    \<and> auction_items st' = auction_items st
    \<and> up (requests st) (page st) = RequestException
    \<and> retry_attempts st' = 0
    \<and> requests st' = page st' + 5"
proof -
  from loop_body_Break [OF assms(3)] have b: "up (requests st) (page st) = RequestException"
    "retry_attempts st \<le> 1" "auction_items st' = auction_items st"
    "retry_attempts st' = retry_attempts st - 1"
    by simp_all
  have "1 \<le> retry_attempts st \<and> int (requests st) = int (page st) + 5 - retry_attempts st"
    using assms(1) by (rule loop_invariant) (simp_all add: initial_state_def)
  with b(2) have i: "retry_attempts st = 1" "requests st = page st + 4" by simp_all
  from assms(3) b(1) have "requests st' = requests st + 1" "page st' = page st"
    by (auto simp: loop_body_def Let_def split: if_splits)
  with i b(4) have e: "retry_attempts st' = 0" "requests st' = page st' + 5" by simp_all
  have "get_auction_items up = while_more_pages up st"
    unfolding get_auction_items_def by (rule while_after_iterations [OF assms(1)])
  also have "\<dots> = Some (Inr (auction_items st'))" by (rule while_Break [OF assms(2,3)])
  finally show ?thesis using b e by simp
qed

theorem fetch_returns_partial_on_exhaustion_witness:
  "after_iterations page_then_down 5 initial_state
     = Some \<lparr>auction_items = [listing ''Crimson Helmet'' True], page = 1, more_pages = True,
             retry_attempts = 1, requests = 5\<rparr>
   \<and> loop_body page_then_down
        \<lparr>auction_items = [listing ''Crimson Helmet'' True], page = 1, more_pages = True,
         retry_attempts = 1, requests = 5\<rparr>
     = Break \<lparr>auction_items = [listing ''Crimson Helmet'' True], page = 1, more_pages = True,
              retry_attempts = 0, requests = 6\<rparr>
   \<and> get_auction_items page_then_down = Some (Inr [listing ''Crimson Helmet'' True])"
proof -
  let ?st = "\<lparr>auction_items = [listing ''Crimson Helmet'' True], page = 1, more_pages = True,
             retry_attempts = 1, requests = 5\<rparr>"
  let ?st' = "\<lparr>auction_items = [listing ''Crimson Helmet'' True], page = 1, more_pages = True,
              retry_attempts = 0, requests = 6\<rparr>"
  have a: "after_iterations page_then_down 5 initial_state = Some ?st"
    by (simp add: eval_nat_numeral initial_state_def loop_body_def Let_def page_then_down_def
        required_def make_item_entry)
  have m: "more_pages ?st" by simp
  have b: "loop_body page_then_down ?st = Break ?st'"
    by (simp add: loop_body_def Let_def page_then_down_def)
  from fetch_returns_partial_on_exhaustion [OF a m b] a b show ?thesis by simp
qed

subsection \<open>C5: a valid paginated upstream is fetched page by page\<close>

text \<open>
  C5: the upstream reports \<open>n\<close> total pages on every page, and the request number \<open>p\<close>,
  when it asks for page \<open>p\<close>, succeeds with the entries of page \<open>p\<close>, each with all its
  required keys. Nothing is assumed about a request that asks for another page, so the
  pages are requested in the order 0, 1, 2, ... The call returns the listings of pages 0
  to \<open>n - 1\<close> in that order, as many as the pages have entries. Page 0 is requested even when
  \<open>n\<close> is 0; a valid upstream with no page has no entry there.
\<close>

theorem fetch_all_pages_in_order:
  assumes "\<forall>p<max 1 n. up p p = Body \<lparr>totalPages = Some (int n), auctions = Some (entries p)\<rparr>"
    and "\<forall>p<max 1 n. map make_item (entries p) = map Inr (items p)"
    and "n = 0 \<longrightarrow> entries 0 = []"
  shows "get_auction_items up = Some (Inr (concat (map items [0..<n])))
    \<and> length (concat (map items [0..<n])) = (\<Sum>p<n. length (entries p))"
proof (cases "n = 0")
  case True
  with assms have u: "up 0 0 = Body \<lparr>totalPages = Some 0, auctions = Some []\<rparr>" by simp
  have "loop_body up initial_state
      = Continue \<lparr>auction_items = [], page = 1, more_pages = False, retry_attempts = 5, requests = 1\<rparr>"
    by (simp add: loop_body_def initial_state_def u required_def)
  then have "while_more_pages up initial_state
      = while_more_pages up \<lparr>auction_items = [], page = 1, more_pages = False, retry_attempts = 5, requests = 1\<rparr>"
    by (subst while_more_pages.simps) (simp add: initial_state_def)
  also have "\<dots> = Some (Inr [])" by (subst while_more_pages.simps) simp
  finally show ?thesis using True by (simp add: get_auction_items_def)
next
  case False
  then have m: "max 1 n = n" "0 < n" by simp_all
  have "get_auction_items up = Some (Inr ([] @ concat (map items [0..<n])))"
    unfolding get_auction_items_def initial_state_def
    using assms(1,2) m(2) unfolding m(1) by (rule fetch_pages)
  moreover have "length (concat (map items [0..<n])) = (\<Sum>p<n. length (entries p))"
    using assms(2) unfolding m(1) by (rule length_items)
  ultimately show ?thesis by simp
qed

theorem fetch_all_pages_in_order_witness:
  "two_pages 0 0 = Body \<lparr>totalPages = Some (int 2), auctions = Some (two_pages_entries 0)\<rparr>
   \<and> two_pages 1 1 = Body \<lparr>totalPages = Some (int 2), auctions = Some (two_pages_entries 1)\<rparr>
   \<and> map make_item (two_pages_entries 0) = map Inr (two_pages_items 0)
   \<and> map make_item (two_pages_entries 1) = map Inr (two_pages_items 1)
   \<and> get_auction_items two_pages
       = Some (Inr [listing ''Crimson Helmet'' True, listing ''Molten Cloak'' True,
                    listing ''Aurora Boots'' False])
   \<and> length [listing ''Crimson Helmet'' True, listing ''Molten Cloak'' True,
             listing ''Aurora Boots'' False]
       = length (two_pages_entries 0) + length (two_pages_entries 1)"
proof -
  have u: "two_pages 0 0 = Body \<lparr>totalPages = Some (int 2), auctions = Some (two_pages_entries 0)\<rparr>"
    "two_pages 1 1 = Body \<lparr>totalPages = Some (int 2), auctions = Some (two_pages_entries 1)\<rparr>"
    by (simp_all add: two_pages_def)
  have k: "map make_item (two_pages_entries 0) = map Inr (two_pages_items 0)"
    "map make_item (two_pages_entries 1) = map Inr (two_pages_items 1)"
    by (simp_all add: two_pages_entries_def two_pages_items_def make_item_entry)
  have h1: "\<forall>p<max 1 2. two_pages p p
      = Body \<lparr>totalPages = Some (int 2), auctions = Some (two_pages_entries p)\<rparr>"
    using u by (auto simp: less_Suc_eq numeral_2_eq_2)
  have h2: "\<forall>p<max 1 2. map make_item (two_pages_entries p) = map Inr (two_pages_items p)"
    using k by (auto simp: less_Suc_eq numeral_2_eq_2)
  have h3: "(2::nat) = 0 \<longrightarrow> two_pages_entries 0 = []" by simp
  have c: "concat (map two_pages_items [0..<2])
      = [listing ''Crimson Helmet'' True, listing ''Molten Cloak'' True, listing ''Aurora Boots'' False]"
    by (simp add: two_pages_items_def upt_conv_Cons)
  have s: "(\<Sum>p<2. length (two_pages_entries p))
      = length (two_pages_entries 0) + length (two_pages_entries 1)"
    by (simp add: numeral_2_eq_2)
  from fetch_all_pages_in_order [where n = 2 and up = two_pages and entries = two_pages_entries and items = two_pages_items, OF h1 h2 h3] u k show ?thesis unfolding c s by simp
qed

subsection \<open>C6: the armor predicate\<close>

text \<open>
  C6: a name passes both armor tests if and only if some substring of it equals, up to
  case, one of the 5 armor lines, and some substring equals, up to case, one of the 4
  piece types. A listing is in the armor branch exactly when it is cached, has the
  fixed-price flag, and its non-empty name passes both tests.
\<close>

theorem armor_predicate_iff:
  "((matches_armor_name n \<and> matches_armor_piece n) \<longleftrightarrow>
      (\<exists>p\<in>set valid_armor_names. \<exists>pre w post. n = pre @ w @ post \<and> lower w = lower p)
      \<and> (\<exists>q\<in>set valid_armor_pieces. \<exists>pre w post. n = pre @ w @ post \<and> lower w = lower q))
   \<and> length valid_armor_names = 5 \<and> length valid_armor_pieces = 4
   \<and> (item \<in> set (armors items) \<longleftrightarrow>
        item \<in> set items \<and> bin_status item
        \<and> (\<exists>m. item_name item = Some m \<and> m \<noteq> [] \<and> matches_armor_name m \<and> matches_armor_piece m))"
proof -
  have 1: "matches_armor_name n \<longleftrightarrow>
      (\<exists>p\<in>set valid_armor_names. \<exists>pre w post. n = pre @ w @ post \<and> lower w = lower p)"
    by (simp only: matches_armor_name_def list_ex_iff contains_lower_iff)
  have 2: "matches_armor_piece n \<longleftrightarrow>
      (\<exists>q\<in>set valid_armor_pieces. \<exists>pre w post. n = pre @ w @ post \<and> lower w = lower q)"
    by (simp only: matches_armor_piece_def list_ex_iff contains_lower_iff)
  have 3: "length valid_armor_names = 5" "length valid_armor_pieces = 4"
    by (simp_all add: valid_armor_names_def valid_armor_pieces_def)
  have 4: "item \<in> set (armors items) \<longleftrightarrow>
        item \<in> set items \<and> bin_status item
        \<and> (\<exists>m. item_name item = Some m \<and> m \<noteq> [] \<and> matches_armor_name m \<and> matches_armor_piece m)"
    by (auto simp: armors_def split: option.splits)
  from 1 2 3 4 show ?thesis by blast
qed

theorem armor_predicate_iff_witness:
  "matches_armor_name ''CRIMSON helmet'' \<and> matches_armor_piece ''CRIMSON helmet''
   \<and> (\<exists>q\<in>set valid_armor_pieces. \<exists>pre w post. ''CRIMSON helmet'' = pre @ w @ post \<and> lower w = lower q)
   \<and> (\<exists>pre w post. ''CRIMSON helmet'' = pre @ w @ post \<and> lower w = lower ''Helmet'')
   \<and> \<not> matches_armor_name ''Diamond Helmet'' \<and> matches_armor_piece ''Diamond Helmet''
   \<and> matches_armor_name ''Crimson Essence'' \<and> \<not> matches_armor_piece ''Crimson Essence''
   \<and> armors [listing ''Diamond Helmet'' True, listing ''Crimson Essence'' True,
              listing ''CRIMSON helmet'' True]
       = [listing ''CRIMSON helmet'' True]"
proof -
  have a: "matches_armor_name ''CRIMSON helmet'' \<and> matches_armor_piece ''CRIMSON helmet''"
    by code_simp
  with armor_predicate_iff [of "''CRIMSON helmet''"] have q:
    "\<exists>q\<in>set valid_armor_pieces. \<exists>pre w post. ''CRIMSON helmet'' = pre @ w @ post \<and> lower w = lower q"
    by blast
  have e: "\<exists>pre w post. ''CRIMSON helmet'' = pre @ w @ post \<and> lower w = lower ''Helmet''"
  proof -
    have "''CRIMSON helmet'' = ''CRIMSON '' @ ''helmet'' @ []" by simp
    moreover have "lower ''helmet'' = lower ''Helmet''" by code_simp
    ultimately show ?thesis by blast
  qed
  have b: "\<not> matches_armor_name ''Diamond Helmet''" "matches_armor_piece ''Diamond Helmet''"
    "matches_armor_name ''Crimson Essence''" "\<not> matches_armor_piece ''Crimson Essence''"
    by code_simp+
  have c: "armors [listing ''Diamond Helmet'' True, listing ''Crimson Essence'' True,
              listing ''CRIMSON helmet'' True]
       = [listing ''CRIMSON helmet'' True]"
    using a b by (simp add: armors_def listing_def)
  from a q e b c show ?thesis by simp
qed

subsection \<open>C7: Crimson Helmet, with and without the fixed-price flag\<close>

text \<open>
  C7: whenever \<open>filter_items\<close> returns, a cached listing named "Crimson Helmet" is in the
  armor branch and in the result when its \<open>bin_status\<close> is true, and is not in the
  result when it is false. A service that is not stale keeps its cache.
\<close>

theorem crimson_helmet_needs_bin:
  assumes "filter_items s up now now' = Some (s', Inr res)"
    and "item \<in> set (cached_items s')"
    and "item_name item = Some ''Crimson Helmet''"
  shows "(bin_status item \<longrightarrow> item \<in> set (armors (cached_items s')) \<and> item \<in> set res)
    \<and> (\<not> bin_status item \<longrightarrow> item \<notin> set res)
    \<and> (\<not> is_stale s now \<longrightarrow> s' = s)"
proof -
  from filter_items_result [OF assms(1)]
  have r: "res = armors (cached_items s') @ equipments (cached_items s') @ shards (cached_items s')"
    and f: "\<not> is_stale s now \<longrightarrow> s' = s"
    by simp_all
  have "bin_status item \<longrightarrow> item \<in> set (armors (cached_items s'))"
    using assms(2,3) example_names(1,2) by (simp add: in_armors)
  moreover have "\<not> bin_status item \<longrightarrow> item \<notin> set res"
    unfolding r by (simp add: in_armors in_equipments in_shards)
  ultimately show ?thesis using r f by auto
qed

theorem crimson_helmet_needs_bin_witness:
  "filter_items mixed_service always_failing 60000000 60000001
     = Some (mixed_service,
             Inr [listing ''Crimson Helmet'' True, listing ''Crimson Attribute Shard Helmet'' True,
                  listing ''Crimson Molten Belt Attribute Shard Helmet'' True,
                  listing ''Molten Cloak'' True,
                  listing ''Crimson Molten Belt Attribute Shard Helmet'' True,
                  listing ''Crimson Attribute Shard Helmet'' True,
                  listing ''Crimson Molten Belt Attribute Shard Helmet'' True])
   \<and> listing ''Crimson Helmet'' True \<in> set (cached_items mixed_service)
   \<and> listing ''Crimson Helmet'' False \<in> set (cached_items mixed_service)
   \<and> listing ''Crimson Helmet'' True \<in> set (armors (cached_items mixed_service))
   \<and> listing ''Crimson Helmet'' False \<notin> set (armors (cached_items mixed_service))"
proof -
  let ?res = "[listing ''Crimson Helmet'' True, listing ''Crimson Attribute Shard Helmet'' True,
                  listing ''Crimson Molten Belt Attribute Shard Helmet'' True,
                  listing ''Molten Cloak'' True,
                  listing ''Crimson Molten Belt Attribute Shard Helmet'' True,
                  listing ''Crimson Attribute Shard Helmet'' True,
                  listing ''Crimson Molten Belt Attribute Shard Helmet'' True]"
  have m: "listing ''Crimson Helmet'' True \<in> set (cached_items mixed_service)"
    "listing ''Crimson Helmet'' False \<in> set (cached_items mixed_service)"
    by (simp_all add: mixed_service_def)
  have n: "item_name (listing ''Crimson Helmet'' True) = Some ''Crimson Helmet''"
    "item_name (listing ''Crimson Helmet'' False) = Some ''Crimson Helmet''"
    by (simp_all add: listing_def)
  have b: "bin_status (listing ''Crimson Helmet'' True)" "\<not> bin_status (listing ''Crimson Helmet'' False)"
    by (simp_all add: listing_def)
  from crimson_helmet_needs_bin [OF mixed_filter m(1) n(1)] b(1)
  have t: "listing ''Crimson Helmet'' True \<in> set (armors (cached_items mixed_service))" by blast
  from crimson_helmet_needs_bin [OF mixed_filter m(2) n(2)] b(2)
  have "listing ''Crimson Helmet'' False \<notin> set ?res" by blast
  moreover have "set (armors (cached_items mixed_service)) \<subseteq> set ?res"
    using filter_items_result [OF mixed_filter] by auto
  ultimately have f: "listing ''Crimson Helmet'' False \<notin> set (armors (cached_items mixed_service))"
    by blast
  from mixed_filter m t f show ?thesis by simp
qed

subsection \<open>C8: the result is the three branches in order, with repetition\<close>

text \<open>
  C8: the result is the armor matches, then the equipment matches, then the shard matches.
  A fixed-price listing with a non-empty name occurs in the result once per branch it
  matches for each occurrence in the cache. The equipment branch asks for the name to
  match an equipment only: "Molten Cloak" matches it and neither armor test, and
  "Crimson Attribute Shard Helmet" matches the armor and the shard branch.
\<close>

theorem filter_concatenates_branches:
  assumes "filter_items s up now now' = Some (s', Inr res)"
  shows "res = armors (cached_items s') @ equipments (cached_items s') @ shards (cached_items s')
    \<and> (\<forall>x n. item_name x = Some n \<and> n \<noteq> [] \<and> bin_status x \<longrightarrow>
          count_list res x
            = count_list (cached_items s') x
              * ((if matches_armor_name n \<and> matches_armor_piece n then 1 else 0)
                 + (if matches_equipment_name n then 1 else 0)
                 + (if contains ''Attribute Shard'' n then 1 else 0)))
    \<and> (\<forall>x. x \<in> set (equipments (cached_items s')) \<longleftrightarrow>
          x \<in> set (cached_items s') \<and> bin_status x
          \<and> (\<exists>n. item_name x = Some n \<and> n \<noteq> [] \<and> matches_equipment_name n))
    \<and> matches_equipment_name ''Molten Cloak''
    \<and> \<not> matches_armor_name ''Molten Cloak'' \<and> \<not> matches_armor_piece ''Molten Cloak''
    \<and> matches_armor_name ''Crimson Attribute Shard Helmet''
    \<and> matches_armor_piece ''Crimson Attribute Shard Helmet''
    \<and> contains ''Attribute Shard'' ''Crimson Attribute Shard Helmet''
    \<and> \<not> matches_equipment_name ''Crimson Attribute Shard Helmet''"
proof -
  from filter_items_result [OF assms]
  have r: "res = armors (cached_items s') @ equipments (cached_items s') @ shards (cached_items s')"
    by simp
  have c: "\<forall>x n. item_name x = Some n \<and> n \<noteq> [] \<and> bin_status x \<longrightarrow>
          count_list res x
            = count_list (cached_items s') x
              * ((if matches_armor_name n \<and> matches_armor_piece n then 1 else 0)
                 + (if matches_equipment_name n then 1 else 0)
                 + (if contains ''Attribute Shard'' n then 1 else 0))"
    unfolding r using count_list_branches by blast
  have e: "\<forall>x. x \<in> set (equipments (cached_items s')) \<longleftrightarrow>
          x \<in> set (cached_items s') \<and> bin_status x
          \<and> (\<exists>n. item_name x = Some n \<and> n \<noteq> [] \<and> matches_equipment_name n)"
    by (simp add: in_equipments)
  show ?thesis
    by (intro conjI) (rule r c e example_names)+
qed

theorem filter_concatenates_branches_witness:
  "filter_items mixed_service always_failing 60000000 60000001
     = Some (mixed_service,
             Inr ([listing ''Crimson Helmet'' True, listing ''Crimson Attribute Shard Helmet'' True,
                   listing ''Crimson Molten Belt Attribute Shard Helmet'' True]
                  @ [listing ''Molten Cloak'' True,
                     listing ''Crimson Molten Belt Attribute Shard Helmet'' True]
                  @ [listing ''Crimson Attribute Shard Helmet'' True,
                     listing ''Crimson Molten Belt Attribute Shard Helmet'' True]))
   \<and> count_list (cached_items mixed_service) (listing ''Crimson Attribute Shard Helmet'' True) = 1
   \<and> count_list (armors (cached_items mixed_service) @ equipments (cached_items mixed_service)
                  @ shards (cached_items mixed_service))
        (listing ''Crimson Attribute Shard Helmet'' True) = 2
   \<and> count_list (armors (cached_items mixed_service) @ equipments (cached_items mixed_service)
                  @ shards (cached_items mixed_service))
        (listing ''Crimson Molten Belt Attribute Shard Helmet'' True) = 3
   \<and> count_list (armors (cached_items mixed_service) @ equipments (cached_items mixed_service)
                  @ shards (cached_items mixed_service))
        (listing ''Molten Cloak'' True) = 1
   \<and> listing ''Molten Cloak'' True \<in> set (equipments (cached_items mixed_service))"
proof -
  let ?res = "[listing ''Crimson Helmet'' True, listing ''Crimson Attribute Shard Helmet'' True,
                  listing ''Crimson Molten Belt Attribute Shard Helmet'' True,
                  listing ''Molten Cloak'' True,
                  listing ''Crimson Molten Belt Attribute Shard Helmet'' True,
                  listing ''Crimson Attribute Shard Helmet'' True,
                  listing ''Crimson Molten Belt Attribute Shard Helmet'' True]"
  note t = filter_concatenates_branches [OF mixed_filter]
  from t have r: "?res = armors (cached_items mixed_service) @ equipments (cached_items mixed_service)
                  @ shards (cached_items mixed_service)"
    by blast
  have p: "item_name (listing ''Crimson Attribute Shard Helmet'' True) = Some ''Crimson Attribute Shard Helmet''
      \<and> ''Crimson Attribute Shard Helmet'' \<noteq> [] \<and> bin_status (listing ''Crimson Attribute Shard Helmet'' True)"
    "item_name (listing ''Crimson Molten Belt Attribute Shard Helmet'' True) = Some ''Crimson Molten Belt Attribute Shard Helmet''
      \<and> ''Crimson Molten Belt Attribute Shard Helmet'' \<noteq> [] \<and> bin_status (listing ''Crimson Molten Belt Attribute Shard Helmet'' True)"
    "item_name (listing ''Molten Cloak'' True) = Some ''Molten Cloak''
      \<and> ''Molten Cloak'' \<noteq> [] \<and> bin_status (listing ''Molten Cloak'' True)"
    by (simp_all add: listing_def)
  have k: "count_list (cached_items mixed_service) (listing ''Crimson Attribute Shard Helmet'' True) = 1"
    "count_list (cached_items mixed_service) (listing ''Crimson Molten Belt Attribute Shard Helmet'' True) = 1"
    "count_list (cached_items mixed_service) (listing ''Molten Cloak'' True) = 1"
    by (simp_all add: mixed_service_def listing_neq) (simp_all add: listing_def unnamed_listing_def)
  from t p(1) have "count_list ?res (listing ''Crimson Attribute Shard Helmet'' True)
      = count_list (cached_items mixed_service) (listing ''Crimson Attribute Shard Helmet'' True)
              * ((if matches_armor_name ''Crimson Attribute Shard Helmet'' \<and> matches_armor_piece ''Crimson Attribute Shard Helmet'' then 1 else 0)
                 + (if matches_equipment_name ''Crimson Attribute Shard Helmet'' then 1 else 0)
                 + (if contains ''Attribute Shard'' ''Crimson Attribute Shard Helmet'' then 1 else 0))"
    by blast
  then have c2: "count_list ?res (listing ''Crimson Attribute Shard Helmet'' True) = 2"
    unfolding k using example_names by simp
  from t p(2) have "count_list ?res (listing ''Crimson Molten Belt Attribute Shard Helmet'' True)
      = count_list (cached_items mixed_service) (listing ''Crimson Molten Belt Attribute Shard Helmet'' True)
              * ((if matches_armor_name ''Crimson Molten Belt Attribute Shard Helmet'' \<and> matches_armor_piece ''Crimson Molten Belt Attribute Shard Helmet'' then 1 else 0)
                 + (if matches_equipment_name ''Crimson Molten Belt Attribute Shard Helmet'' then 1 else 0)
                 + (if contains ''Attribute Shard'' ''Crimson Molten Belt Attribute Shard Helmet'' then 1 else 0))"
    by blast
  then have c3: "count_list ?res (listing ''Crimson Molten Belt Attribute Shard Helmet'' True) = 3"
    unfolding k using example_names by simp
  from t p(3) have "count_list ?res (listing ''Molten Cloak'' True)
      = count_list (cached_items mixed_service) (listing ''Molten Cloak'' True)
              * ((if matches_armor_name ''Molten Cloak'' \<and> matches_armor_piece ''Molten Cloak'' then 1 else 0)
                 + (if matches_equipment_name ''Molten Cloak'' then 1 else 0)
                 + (if contains ''Attribute Shard'' ''Molten Cloak'' then 1 else 0))"
    by blast
  then have c1: "count_list ?res (listing ''Molten Cloak'' True) = 1"
    unfolding k using example_names by simp
  have m: "listing ''Molten Cloak'' True \<in> set (cached_items mixed_service)"
    by (simp add: mixed_service_def)
  from t m p(3) have e: "listing ''Molten Cloak'' True \<in> set (equipments (cached_items mixed_service))"
    by blast
  from mixed_filter k(1) c2 c3 c1 e show ?thesis unfolding r [symmetric] by simp
qed

subsection \<open>C9: staleness\<close>

text \<open>
  C9: a service just constructed is stale exactly when the clock reads later than five
  minutes after \<open>datetime.min\<close>, so at every reading from 1970 on. After a refresh that
  returned at time \<open>t\<close> the service is not stale at \<open>t\<close>, and it is stale at a later
  reading exactly when more than five minutes (300000000 microseconds) have passed since
  \<open>t\<close>. \<open>filter_items\<close> refreshes exactly when the service is stale.
\<close>

theorem staleness_after_init_and_refresh:
  "(is_stale init_service now \<longleftrightarrow> datetime_min + timedelta_minutes 5 < now)
   \<and> (0 \<le> now \<longrightarrow> is_stale init_service now)
   \<and> timedelta_minutes 5 = 300000000
   \<and> (refresh_data s up t = Some (s', Inr ()) \<longrightarrow>
        last_fetched s' = t \<and> \<not> is_stale s' t
        \<and> (\<forall>later. is_stale s' later \<longleftrightarrow> timedelta_minutes 5 < later - t))
   \<and> (\<not> is_stale s now \<longrightarrow>
        filter_items s up now now'
          = Some (s, Inr (armors (cached_items s) @ equipments (cached_items s)
                          @ shards (cached_items s))))
   \<and> (is_stale s now \<longrightarrow>
        filter_items s up now now'
          = (case refresh_data s up now' of
               None \<Rightarrow> None
             | Some (s1, Inl e) \<Rightarrow> Some (s1, Inl e)
             | Some (s1, Inr u) \<Rightarrow>
                 Some (s1, Inr (armors (cached_items s1) @ equipments (cached_items s1)
                                @ shards (cached_items s1)))))"
proof -
  have 1: "is_stale init_service now \<longleftrightarrow> datetime_min + timedelta_minutes 5 < now"
    by (auto simp: is_stale_def init_service_def)
  have 2: "0 \<le> now \<longrightarrow> is_stale init_service now"
    by (simp add: is_stale_def init_service_def datetime_min_def timedelta_minutes_def)
  have 3: "timedelta_minutes 5 = 300000000" by (simp add: timedelta_minutes_def)
  have 4: "refresh_data s up t = Some (s', Inr ()) \<longrightarrow>
        last_fetched s' = t \<and> \<not> is_stale s' t
        \<and> (\<forall>later. is_stale s' later \<longleftrightarrow> timedelta_minutes 5 < later - t)"
  proof
    assume "refresh_data s up t = Some (s', Inr ())"
    from refresh_data_cases [OF this] have "last_fetched s' = t" by auto
    then show "last_fetched s' = t \<and> \<not> is_stale s' t
        \<and> (\<forall>later. is_stale s' later \<longleftrightarrow> timedelta_minutes 5 < later - t)"
      by (simp add: is_stale_def timedelta_minutes_def)
  qed
  have 5: "\<not> is_stale s now \<longrightarrow>
        filter_items s up now now'
          = Some (s, Inr (armors (cached_items s) @ equipments (cached_items s)
                          @ shards (cached_items s)))"
    by (simp add: filter_items_fresh)
  have 6: "is_stale s now \<longrightarrow>
        filter_items s up now now'
          = (case refresh_data s up now' of
               None \<Rightarrow> None
             | Some (s1, Inl e) \<Rightarrow> Some (s1, Inl e)
             | Some (s1, Inr u) \<Rightarrow>
                 Some (s1, Inr (armors (cached_items s1) @ equipments (cached_items s1)
                                @ shards (cached_items s1))))"
    by (simp add: filter_items_def)
  show ?thesis by (intro conjI) (rule 1 2 3 4 5 6)+
qed

theorem staleness_after_init_and_refresh_witness:
  "is_stale init_service 0
   \<and> refresh_data init_service always_failing 0
       = Some (\<lparr>last_fetched = 0, cached_items = []\<rparr>, Inr ())
   \<and> \<not> is_stale \<lparr>last_fetched = 0, cached_items = []\<rparr> 0
   \<and> \<not> is_stale \<lparr>last_fetched = 0, cached_items = []\<rparr> 300000000
   \<and> is_stale \<lparr>last_fetched = 0, cached_items = []\<rparr> 300000001
   \<and> filter_items \<lparr>last_fetched = 0, cached_items = []\<rparr> always_failing 300000000 300000005
       = Some (\<lparr>last_fetched = 0, cached_items = []\<rparr>, Inr [])
   \<and> filter_items \<lparr>last_fetched = 0, cached_items = []\<rparr> always_failing 300000001 300000005
       = Some (\<lparr>last_fetched = 300000005, cached_items = []\<rparr>, Inr [])"
proof -
  let ?s = "\<lparr>last_fetched = 0, cached_items = []\<rparr>"
  note t = staleness_after_init_and_refresh [where now = 0 and s = init_service and up = always_failing and t = 0
      and s' = ?s and now' = 0]
  note t1 = staleness_after_init_and_refresh [where now = 300000000 and s = ?s and up = always_failing and t = 0
      and s' = ?s and now' = 300000005]
  note t2 = staleness_after_init_and_refresh [where now = 300000001 and s = ?s and up = always_failing and t = 0
      and s' = ?s and now' = 300000005]
  have r: "refresh_data init_service always_failing 0 = Some (?s, Inr ())"
    by (rule refresh_all_fail)
  have r': "refresh_data ?s always_failing 300000005
      = Some (\<lparr>last_fetched = 300000005, cached_items = []\<rparr>, Inr ())"
    by (rule refresh_all_fail)
  have "(0::int) \<le> 0" by simp
  with t have a: "is_stale init_service 0" by blast
  from t r have b: "\<not> is_stale ?s 0" by blast
  from t r have "\<forall>later. is_stale ?s later \<longleftrightarrow> timedelta_minutes 5 < later - 0" by blast
  then have c: "\<not> is_stale ?s 300000000" "is_stale ?s 300000001"
    using t by simp_all
  from t1 c(1) have d: "filter_items ?s always_failing 300000000 300000005
      = Some (?s, Inr (armors (cached_items ?s) @ equipments (cached_items ?s) @ shards (cached_items ?s)))"
    by blast
  from t2 c(2) have e: "filter_items ?s always_failing 300000001 300000005
          = (case refresh_data ?s always_failing 300000005 of
               None \<Rightarrow> None
             | Some (s1, Inl e) \<Rightarrow> Some (s1, Inl e)
             | Some (s1, Inr u) \<Rightarrow>
                 Some (s1, Inr (armors (cached_items s1) @ equipments (cached_items s1)
                                @ shards (cached_items s1))))"
    by blast
  from a r b c d e show ?thesis
    unfolding r' by (simp add: armors_def equipments_def shards_def)
qed

subsection \<open>C10: every returned listing has a name and the fixed-price flag\<close>

text \<open>
  C10: every listing that \<open>filter_items\<close> returns is cached, has \<open>bin_status\<close> true and a
  non-empty name. A listing whose name is \<open>None\<close> or empty is in none of the three
  branches.
\<close>

theorem filtered_items_named_and_bin:
  assumes "filter_items s up now now' = Some (s', Inr res)"
  shows "(\<forall>x\<in>set res. x \<in> set (cached_items s') \<and> bin_status x = True
            \<and> (\<exists>n. item_name x = Some n \<and> n \<noteq> []))
    \<and> (\<forall>y. item_name y = None \<or> item_name y = Some [] \<longrightarrow>
          y \<notin> set (armors (cached_items s')) \<and> y \<notin> set (equipments (cached_items s'))
          \<and> y \<notin> set (shards (cached_items s')) \<and> y \<notin> set res)"
proof -
  from filter_items_result [OF assms]
  have r: "res = armors (cached_items s') @ equipments (cached_items s') @ shards (cached_items s')"
    by simp
  show ?thesis unfolding r by (auto simp: in_armors in_equipments in_shards)
qed

theorem filtered_items_named_and_bin_witness:
  "filter_items mixed_service always_failing 60000000 60000001
     = Some (mixed_service,
             Inr [listing ''Crimson Helmet'' True, listing ''Crimson Attribute Shard Helmet'' True,
                  listing ''Crimson Molten Belt Attribute Shard Helmet'' True,
                  listing ''Molten Cloak'' True,
                  listing ''Crimson Molten Belt Attribute Shard Helmet'' True,
                  listing ''Crimson Attribute Shard Helmet'' True,
                  listing ''Crimson Molten Belt Attribute Shard Helmet'' True])
   \<and> listing ''Molten Cloak'' True
       \<in> set [listing ''Crimson Helmet'' True, listing ''Crimson Attribute Shard Helmet'' True,
                  listing ''Crimson Molten Belt Attribute Shard Helmet'' True,
                  listing ''Molten Cloak'' True,
                  listing ''Crimson Molten Belt Attribute Shard Helmet'' True,
                  listing ''Crimson Attribute Shard Helmet'' True,
                  listing ''Crimson Molten Belt Attribute Shard Helmet'' True]
   \<and> bin_status (listing ''Molten Cloak'' True) = True
   \<and> (\<exists>n. item_name (listing ''Molten Cloak'' True) = Some n \<and> n \<noteq> [])
   \<and> unnamed_listing \<in> set (cached_items mixed_service) \<and> item_name unnamed_listing = None
   \<and> bin_status unnamed_listing
   \<and> unnamed_listing \<notin> set (equipments (cached_items mixed_service))
   \<and> listing [] True \<in> set (cached_items mixed_service)
   \<and> listing [] True \<notin> set (shards (cached_items mixed_service))"
proof -
  let ?res = "[listing ''Crimson Helmet'' True, listing ''Crimson Attribute Shard Helmet'' True,
                  listing ''Crimson Molten Belt Attribute Shard Helmet'' True,
                  listing ''Molten Cloak'' True,
                  listing ''Crimson Molten Belt Attribute Shard Helmet'' True,
                  listing ''Crimson Attribute Shard Helmet'' True,
                  listing ''Crimson Molten Belt Attribute Shard Helmet'' True]"
  note t = filtered_items_named_and_bin [OF mixed_filter]
  have m: "listing ''Molten Cloak'' True \<in> set ?res" by simp
  with t have a: "bin_status (listing ''Molten Cloak'' True) = True
      \<and> (\<exists>n. item_name (listing ''Molten Cloak'' True) = Some n \<and> n \<noteq> [])"
    by blast
  have u: "unnamed_listing \<in> set (cached_items mixed_service)" "item_name unnamed_listing = None"
    "bin_status unnamed_listing"
    "listing [] True \<in> set (cached_items mixed_service)" "item_name (listing [] True) = Some []"
    by (simp_all add: mixed_service_def unnamed_listing_def listing_def)
  from t u(2) have b: "unnamed_listing \<notin> set (equipments (cached_items mixed_service))" by blast
  from t u(5) have c: "listing [] True \<notin> set (shards (cached_items mixed_service))" by blast
  from mixed_filter m a u b c show ?thesis by simp
qed

end
